theory Spec2Isabelle
  imports Main "HOL-Library.Word"
begin

unbundle bit_operations_syntax

section \<open>Fixed-capacity strings of \<^verbatim>\<open>components/esm/esmcommon.hpp\<close>\<close>

text \<open>
  \<^verbatim>\<open>template <std::size_t capacity> struct FixedString { char mData[capacity]; ... }\<close>

  A \<^verbatim>\<open>char\<close> is a byte. The template parameter \<^verbatim>\<open>capacity\<close> is passed to every
  operation as its first argument, and the array \<^verbatim>\<open>mData\<close> is the list of its
  \<^verbatim>\<open>capacity\<close> bytes. The type itself asserts \<^verbatim>\<open>capacity > 0\<close>.
\<close>

type_synonym byte = "8 word"

definition FLAG_Persistent :: "32 word" where
  "FLAG_Persistent = 0x00000400"

definition FLAG_Blocked :: "32 word" where
  "FLAG_Blocked = 0x00002000"

definition valid_FixedString :: "nat \<Rightarrow> byte list \<Rightarrow> bool" where
  "valid_FixedString capacity mData = (0 < capacity \<and> length mData = capacity)"

subsection \<open>The C library calls the header uses\<close>

text \<open>
  \<^verbatim>\<open>strnlen(s, maxlen)\<close>: the number of bytes before the first zero byte among the
  first \<^verbatim>\<open>maxlen\<close> bytes of \<^verbatim>\<open>s\<close>, and \<^verbatim>\<open>maxlen\<close> when there is none. The header
  only calls it with \<^verbatim>\<open>maxlen\<close> equal to the size of the array, so the scan never leaves
  the list.
\<close>

fun strnlen :: "byte list \<Rightarrow> nat \<Rightarrow> nat" where
  "strnlen [] maxlen = 0"
| "strnlen (c # s) maxlen =
     (if maxlen = 0 then 0 else if c = 0 then 0 else Suc (strnlen s (maxlen - 1)))"

text \<open>\<^verbatim>\<open>memset(dst, v, n)\<close> and \<^verbatim>\<open>memcpy(dst, src, n)\<close> overwrite the first \<^verbatim>\<open>n\<close> bytes
  of \<^verbatim>\<open>dst\<close> and leave the rest of it alone.\<close>

definition memset :: "byte list \<Rightarrow> byte \<Rightarrow> nat \<Rightarrow> byte list" where
  "memset dst v n = replicate n v @ drop n dst"

definition memcpy :: "byte list \<Rightarrow> byte list \<Rightarrow> nat \<Rightarrow> byte list" where
  "memcpy dst src n = take n src @ drop n dst"

text \<open>
  Copying four bytes into a \<^verbatim>\<open>std::uint32_t\<close>, or a \<^verbatim>\<open>std::uint32_t\<close> into four bytes,
  gives the object representation of the integer, which is the host's byte order. The
  host is a parameter of the model.
\<close>

datatype endian = LittleEndian | BigEndian

definition pack_le :: "byte \<Rightarrow> byte \<Rightarrow> byte \<Rightarrow> byte \<Rightarrow> 32 word" where
  "pack_le b0 b1 b2 b3 =
     ucast b0 OR push_bit 8 (ucast b1) OR push_bit 16 (ucast b2) OR push_bit 24 (ucast b3)"

definition unpack_le :: "32 word \<Rightarrow> byte list" where
  "unpack_le v = [ucast v, ucast (drop_bit 8 v), ucast (drop_bit 16 v), ucast (drop_bit 24 v)]"

definition load_u32 :: "endian \<Rightarrow> byte list \<Rightarrow> 32 word" where
  "load_u32 host m =
     (case host of
        LittleEndian \<Rightarrow> pack_le (m ! 0) (m ! 1) (m ! 2) (m ! 3)
      | BigEndian \<Rightarrow> pack_le (m ! 3) (m ! 2) (m ! 1) (m ! 0))"

definition store_u32 :: "endian \<Rightarrow> 32 word \<Rightarrow> byte list" where
  "store_u32 host v =
     (case host of
        LittleEndian \<Rightarrow> unpack_le v
      | BigEndian \<Rightarrow> rev (unpack_le v))"

subsection \<open>The members of \<^verbatim>\<open>FixedString\<close>\<close>

text \<open>\<^verbatim>\<open>return std::string_view(mData, strnlen(mData, capacity));\<close>\<close>

definition toStringView :: "nat \<Rightarrow> byte list \<Rightarrow> byte list" where
  "toStringView capacity mData = take (strnlen mData capacity) mData"

text \<open>\<^verbatim>\<open>return std::string(toStringView());\<close>\<close>

definition toString :: "nat \<Rightarrow> byte list \<Rightarrow> byte list" where
  "toString capacity mData = toStringView capacity mData"

text \<open>\<^verbatim>\<open>std::memcpy(&value, mData, capacity); return value;\<close> The member only compiles
  for \<^verbatim>\<open>capacity == sizeof(std::uint32_t)\<close>.\<close>

definition toInt :: "endian \<Rightarrow> byte list \<Rightarrow> 32 word" where
  "toInt host mData = load_u32 host mData"

text \<open>\<^verbatim>\<open>std::memset(mData, 0, capacity);\<close>\<close>

definition clear :: "nat \<Rightarrow> byte list \<Rightarrow> byte list" where
  "clear capacity mData = memset mData 0 capacity"

text \<open>
  \<^verbatim>\<open>void assign(std::string_view value)\<close>. The three paths of the source in their order:
  the empty value, the value shorter than the capacity, the value that fills the buffer.
  The two \<^verbatim>\<open>if constexpr\<close> tests on \<^verbatim>\<open>capacity == sizeof(std::uint32_t)\<close> are tests
  on \<^verbatim>\<open>capacity = 4\<close>.
\<close>

definition assign :: "nat \<Rightarrow> byte list \<Rightarrow> byte list \<Rightarrow> byte list" where
  "assign capacity mData val =
     (if val = [] then clear capacity mData
      else if length val < capacity then
        (let d1 = (if capacity = 4 then memset mData 0 capacity else mData);
             d2 = memcpy d1 val (length val)
         in if capacity \<noteq> 4 then d2[length val := 0] else d2)
      else
        (let d1 = memcpy mData val capacity
         in if capacity \<noteq> 4 then d1[capacity - 1 := 0] else d1))"

text \<open>\<^verbatim>\<open>FixedString& operator=(std::uint32_t value)\<close>:
  \<^verbatim>\<open>std::memcpy(&mData, &value, capacity);\<close> with \<^verbatim>\<open>capacity == sizeof(value)\<close>.\<close>

definition assign_uint32 :: "endian \<Rightarrow> byte list \<Rightarrow> 32 word \<Rightarrow> byte list" where
  "assign_uint32 host mData v = memcpy mData (store_u32 host v) 4"

subsection \<open>The comparison operators\<close>

text \<open>
  \<^verbatim>\<open>operator==(const FixedString<capacity>& lhs, const T* const& rhs)\<close>. The pointer
  \<^verbatim>\<open>rhs\<close> is the list of the bytes of the array it points into; a read at or beyond
  the end of that array is outside the object and has no defined result, which the model
  returns as \<open>None\<close>. The loop variable \<^verbatim>\<open>i\<close> is the last argument.
\<close>

function eq_cstr_loop :: "nat \<Rightarrow> byte list \<Rightarrow> byte list \<Rightarrow> nat \<Rightarrow> bool option" where
  "eq_cstr_loop capacity lhs rhs i =
     (if i < capacity then
        (if i < length lhs \<and> i < length rhs then
           (if lhs ! i \<noteq> rhs ! i then Some False
            else if lhs ! i = 0 then Some True
            else eq_cstr_loop capacity lhs rhs (Suc i))
         else None)
      else if capacity < length rhs then Some (rhs ! capacity = 0)
      else None)"
  by pat_completeness auto
termination
  by (relation "measure (\<lambda>(capacity, lhs, rhs, i). capacity - i)") auto

declare eq_cstr_loop.simps [simp del]

definition eq_cstr :: "nat \<Rightarrow> byte list \<Rightarrow> byte list \<Rightarrow> bool option" where
  "eq_cstr capacity lhs rhs = eq_cstr_loop capacity lhs rhs 0"

text \<open>
  The same comparison on what is left of the two arrays from the loop index on; the loop
  is shown below to compute it.
\<close>

fun cmp_cstr :: "byte list \<Rightarrow> byte list \<Rightarrow> bool option" where
  "cmp_cstr [] [] = None"
| "cmp_cstr [] (r # rs) = Some (r = 0)"
| "cmp_cstr (l # ls) [] = None"
| "cmp_cstr (l # ls) (r # rs) =
     (if l \<noteq> r then Some False else if l = 0 then Some True else cmp_cstr ls rs)"

text \<open>\<^verbatim>\<open>operator==(const FixedString<4>& lhs, std::uint32_t rhs)\<close>\<close>

definition eq_uint32 :: "endian \<Rightarrow> byte list \<Rightarrow> 32 word \<Rightarrow> bool" where
  "eq_uint32 host lhs rhs = (toInt host lhs = rhs)"

subsection \<open>What the specification calls the text of a buffer\<close>

text \<open>The bytes before the first zero byte, all of them when there is none.\<close>

definition text_of :: "byte list \<Rightarrow> byte list" where
  "text_of bs = takeWhile (\<lambda>c. c \<noteq> 0) bs"

text \<open>The little-endian value of four bytes, byte 0 the least significant.\<close>

definition le_value :: "byte list \<Rightarrow> nat" where
  "le_value m =
     unat (m ! 0) + 256 * unat (m ! 1) + 65536 * unat (m ! 2) + 16777216 * unat (m ! 3)"

text \<open>Every byte from the logical length on is zero.\<close>

definition zero_padded :: "nat \<Rightarrow> byte list \<Rightarrow> bool" where
  "zero_padded capacity mData = list_all (\<lambda>c. c = 0) (drop (strnlen mData capacity) mData)"

section \<open>The read context\<close>

text \<open>
  \<^verbatim>\<open>struct ESM_Context\<close> of \<^verbatim>\<open>esmcommon.hpp\<close>, field by field. \<^verbatim>\<open>uint32_t\<close> is a 32-bit
  word; the two \<^verbatim>\<open>size_t\<close> fields and the \<^verbatim>\<open>int\<close> fields are only stored and compared
  here. \<^verbatim>\<open>recName\<close> and \<^verbatim>\<open>subName\<close> are \<^verbatim>\<open>FixedString<4>\<close> buffers.
\<close>

record ESM_Context =
  filename :: string
  leftRec :: "32 word"
  leftSub :: "32 word"
  leftFile :: nat
  recName :: "byte list"
  subName :: "byte list"
  index :: int
  parentFileIndices :: "int list"
  subCached :: bool
  filePos :: nat

section \<open>The record stream reader\<close>

text \<open>
  Modelled from the spec: the reader that owns an \<^verbatim>\<open>ESM_Context\<close> is not among the
  sources; only the context structure is. These are its three states of section 4.2.
\<close>

datatype reader_state = BetweenRecords | InRecord | InSubrecord

text \<open>Modelled from the spec: the error taxonomy of section 7, raised by the reader and the
  overlay that are missing from the sources.\<close>

datatype error = FormatError | UsageError | DependencyError

text \<open>
  Modelled from the spec: the reader itself, which is missing from the sources. It is an
  exclusive cursor over the bytes of one open file (section 5) together with its live
  context (section 3) and its state (section 4.2).
\<close>

record RecordStreamReader =
  input :: "byte list"
  cursor :: nat
  mCtx :: ESM_Context
  state :: reader_state






text \<open>
  Modelled from the spec: the read of a four-byte tag by the reader that is missing from
  the sources (section 6); fewer bytes than that before the end of the file is a
  premature end.
\<close>

definition read_name :: "byte list \<Rightarrow> nat \<Rightarrow> byte list option" where
  "read_name bs pos = (if pos + 4 \<le> length bs then Some (take 4 (drop pos bs)) else None)"

text \<open>Modelled from the spec: the read of a four-byte little-endian length by the missing
  reader (section 4.2: "all multi-byte integers are fixed little-endian width").\<close>

definition read_u32 :: "byte list \<Rightarrow> nat \<Rightarrow> 32 word option" where
  "read_u32 bs pos =
     (if pos + 4 \<le> length bs
      then Some (pack_le (bs ! pos) (bs ! (pos + 1)) (bs ! (pos + 2)) (bs ! (pos + 3)))
      else None)"

text \<open>Modelled from the spec: the size of a subrecord header as the missing reader counts
  it, a four-byte tag and a four-byte length (section 6).\<close>

definition subrecord_header_size :: nat where
  "subrecord_header_size = 8"

text \<open>
  Modelled from the spec: \<^verbatim>\<open>peekSubrecordTag\<close>, missing from the sources. It "reads the
  next subrecord's tag without committing to consuming it, setting the subCached
  condition": the four bytes of the tag are read, the tag is kept in \<open>subName\<close> and the
  flag is set. A tag that is already cached is returned without another read. The spec
  does not say what happens when no subrecord is left in the record, and the model adds
  nothing for that case.
\<close>

definition peekSubrecordTag ::
  "RecordStreamReader \<Rightarrow> error + (byte list \<times> RecordStreamReader)" where
  "peekSubrecordTag r =
     (if state r \<noteq> InRecord then Inl UsageError
      else if subCached (mCtx r) then Inr (subName (mCtx r), r)
      else
        (case read_name (input r) (cursor r) of
           None \<Rightarrow> Inl FormatError
         | Some tag \<Rightarrow>
             Inr (tag, r\<lparr>cursor := cursor r + 4,
                         mCtx := (mCtx r)\<lparr>subName := tag, subCached := True\<rparr>\<rparr>)))"

text \<open>
  Modelled from the spec: \<^verbatim>\<open>nextSubrecordHeader\<close>, missing from the sources. Valid only
  in \<open>InRecord\<close>; with \<open>leftRec\<close> zero it goes back to \<open>BetweenRecords\<close> and reports no more
  subrecords (\<open>None\<close>); otherwise it reads the tag, or reuses the cached one, reads the
  declared length, takes the header size off \<open>leftRec\<close>, sets \<open>leftSub\<close> and goes to
  \<open>InSubrecord\<close>. A declared length above what is left of the record is a \<open>FormatError\<close>,
  and so is a record with fewer bytes left than a header.
\<close>

definition nextSubrecordHeader ::
  "RecordStreamReader \<Rightarrow> error + (byte list option \<times> RecordStreamReader)" where
  "nextSubrecordHeader r =
     (if state r \<noteq> InRecord then Inl UsageError
      else if leftRec (mCtx r) = 0 then Inr (None, r\<lparr>state := BetweenRecords\<rparr>)
      else
        (case (if subCached (mCtx r) then Some (subName (mCtx r), cursor r)
               else map_option (\<lambda>tag. (tag, cursor r + 4)) (read_name (input r) (cursor r))) of
           None \<Rightarrow> Inl FormatError
         | Some (tag, pos) \<Rightarrow>
             (case read_u32 (input r) pos of
                None \<Rightarrow> Inl FormatError
              | Some len \<Rightarrow>
                  if unat (leftRec (mCtx r)) < subrecord_header_size then Inl FormatError
                  else if unat (leftRec (mCtx r)) - subrecord_header_size < unat len
                  then Inl FormatError
                  else Inr (Some tag,
                    r\<lparr>cursor := pos + 4, state := InSubrecord,
                      mCtx := (mCtx r)\<lparr>leftRec := leftRec (mCtx r) - 8, leftSub := len,
                                         subName := tag, subCached := False\<rparr>\<rparr>))))"

text \<open>Modelled from the spec: the offset at which the pending subrecord header begins,
  four bytes back when its tag has been read ahead by the missing reader.\<close>

definition header_start :: "RecordStreamReader \<Rightarrow> nat" where
  "header_start r = (if subCached (mCtx r) then cursor r - 4 else cursor r)"

section \<open>The multi-file overlay\<close>

text \<open>
  Modelled from the spec: the overlay of section 4.4 is missing from the sources, which
  hold only the \<^verbatim>\<open>FLAG_Blocked\<close> bit it tests. A record as a reader hands it over: its
  key (type tag and id, by the caller's key extraction), its flag word and its body.
\<close>

record 'k FileRecord =
  rkey :: 'k
  rflags :: "32 word"
  rbody :: "byte list"

text \<open>
  Modelled from the spec: what the missing overlay yields. A visible record, or the
  tombstone that tells the caller the key was removed; each with the index of the file
  it comes from.
\<close>

datatype 'k Yielded = Visible nat "'k FileRecord" | Tombstone nat 'k

text \<open>Modelled from the spec: the key of an item yielded by the missing overlay.\<close>

fun ykey :: "'k Yielded \<Rightarrow> 'k" where
  "ykey (Visible i r) = rkey r"
| "ykey (Tombstone i k) = k"

text \<open>Modelled from the spec: "each yielded record carries its true originating file
  index"; the overlay that attaches it is missing from the sources.\<close>

fun yfile :: "'k Yielded \<Rightarrow> nat" where
  "yfile (Visible i r) = i"
| "yfile (Tombstone i k) = i"

text \<open>Modelled from the spec: the test of the \<open>Blocked\<close> flag by the missing overlay, on
  the bit \<^verbatim>\<open>FLAG_Blocked = 0x00002000\<close> of the header.\<close>

definition is_blocked :: "'k FileRecord \<Rightarrow> bool" where
  "is_blocked r = (rflags r AND FLAG_Blocked \<noteq> 0)"

text \<open>Modelled from the spec: "Blocked records must be surfaced as tombstones", in the
  missing overlay.\<close>

definition surface :: "nat \<Rightarrow> 'k FileRecord \<Rightarrow> 'k Yielded" where
  "surface i r = (if is_blocked r then Tombstone i (rkey r) else Visible i r)"

text \<open>
  Modelled from the spec: the first pass of the missing overlay, "for each file in
  order, record the winning owner for every key", the owner being "winning file index +
  position". \<open>i\<close> is the index of the file and \<open>p\<close> the position of the record in it.
\<close>

fun scan_file ::
  "nat \<Rightarrow> nat \<Rightarrow> 'k FileRecord list \<Rightarrow> ('k \<rightharpoonup> nat \<times> nat) \<Rightarrow> ('k \<rightharpoonup> nat \<times> nat)" where
  "scan_file i p [] m = m"
| "scan_file i p (r # rs) m = scan_file i (Suc p) rs (m(rkey r \<mapsto> (i, p)))"

text \<open>Modelled from the spec: the first pass of the missing overlay over all files, in
  load order, so that a later file overwrites the owner an earlier one recorded.\<close>

fun scan_files ::
  "nat \<Rightarrow> 'k FileRecord list list \<Rightarrow> ('k \<rightharpoonup> nat \<times> nat) \<Rightarrow> ('k \<rightharpoonup> nat \<times> nat)" where
  "scan_files i [] m = m"
| "scan_files i (f # fs) m = scan_files (Suc i) fs (scan_file i 0 f m)"

text \<open>
  Modelled from the spec: the second pass of the missing overlay, "stream records only
  for keys each file still owns", each file in its own order and the files in load order.
\<close>

fun stream_file ::
  "('k \<rightharpoonup> nat \<times> nat) \<Rightarrow> nat \<Rightarrow> nat \<Rightarrow> 'k FileRecord list \<Rightarrow> 'k Yielded list" where
  "stream_file m i p [] = []"
| "stream_file m i p (r # rs) =
     (if m (rkey r) = Some (i, p) then surface i r # stream_file m i (Suc p) rs
      else stream_file m i (Suc p) rs)"

text \<open>Modelled from the spec: the second pass of the missing overlay over all files, in
  load order.\<close>

fun stream_files ::
  "('k \<rightharpoonup> nat \<times> nat) \<Rightarrow> nat \<Rightarrow> 'k FileRecord list list \<Rightarrow> 'k Yielded list" where
  "stream_files m i [] = []"
| "stream_files m i (f # fs) = stream_file m i 0 f @ stream_files m (Suc i) fs"

text \<open>
  Modelled from the spec: the missing overlay object. It is built from the readers in
  load order, index 0 the base; the ownership map is "built once per overlay
  construction" (section 9), and what is left to yield is kept with it.
\<close>

record 'k MultiFileOverlay =
  readers :: "'k FileRecord list list"
  owner :: "'k \<rightharpoonup> nat \<times> nat"
  pending :: "'k Yielded list"

text \<open>Modelled from the spec: the construction of the missing overlay from the ordered
  list of files: both passes are run here, once.\<close>

definition newOverlay :: "'k FileRecord list list \<Rightarrow> 'k MultiFileOverlay" where
  "newOverlay files =
     (let m = scan_files 0 files Map.empty
      in \<lparr>readers = files, owner = m, pending = stream_files m 0 files\<rparr>)"

text \<open>Modelled from the spec: \<^verbatim>\<open>nextLogicalRecord\<close> of the missing overlay pulls one
  item, \<open>None\<close> at the end of the merged stream.\<close>

definition nextLogicalRecord ::
  "'k MultiFileOverlay \<Rightarrow> 'k Yielded option \<times> 'k MultiFileOverlay" where
  "nextLogicalRecord ov =
     (case pending ov of
        [] \<Rightarrow> (None, ov)
      | y # ys \<Rightarrow> (Some y, ov\<lparr>pending := ys\<rparr>))"

text \<open>Modelled from the spec: a caller of the missing overlay that pulls until the end,
  at most \<open>n\<close> times.\<close>

fun drain :: "nat \<Rightarrow> 'k MultiFileOverlay \<Rightarrow> 'k Yielded list" where
  "drain 0 ov = []"
| "drain (Suc n) ov =
     (case nextLogicalRecord ov of
        (None, ov') \<Rightarrow> []
      | (Some y, ov') \<Rightarrow> y # drain n ov')"

section \<open>Lemmas on the library calls\<close>

lemma length_memset: "n \<le> length dst \<Longrightarrow> length (memset dst v n) = length dst"
  by (simp add: memset_def)

lemma length_memcpy:
  "n \<le> length dst \<Longrightarrow> n \<le> length src \<Longrightarrow> length (memcpy dst src n) = length dst"
  by (simp add: memcpy_def)

lemma strnlen_le: "strnlen s n \<le> n"
  by (induction s n rule: strnlen.induct) auto

lemma strnlen_le_length: "strnlen s n \<le> length s"
  by (induction s n rule: strnlen.induct) auto

lemma take_strnlen: "length s \<le> n \<Longrightarrow> take (strnlen s n) s = takeWhile (\<lambda>c. c \<noteq> 0) s"
  by (induction s n rule: strnlen.induct) auto

lemma strnlen_eq: "length s \<le> n \<Longrightarrow> strnlen s n = length (takeWhile (\<lambda>c. c \<noteq> 0) s)"
  by (induction s n rule: strnlen.induct) auto

lemma strnlen_zero_at: "i < length s \<Longrightarrow> i < n \<Longrightarrow> s ! i = 0 \<Longrightarrow> strnlen s n \<le> i"
proof (induction s n arbitrary: i rule: strnlen.induct)
  case (1 maxlen)
  then show ?case by simp
next
  case (2 c s maxlen)
  then show ?case by (cases i) auto
qed

lemma strnlen_zeros: "strnlen (replicate n 0) m = 0"
  by (cases n) auto

lemma takeWhile_nonzero_all: "0 \<notin> set xs \<Longrightarrow> takeWhile (\<lambda>c. c \<noteq> (0::byte)) xs = xs"
  by (induction xs) auto

lemma strnlen_padded:
  assumes "0 \<notin> set xs" "length xs + n \<le> m"
  shows "strnlen (xs @ replicate n 0) m = length xs"
proof -
  have "takeWhile (\<lambda>c. c \<noteq> 0) (xs @ replicate n 0) = xs"
    using assms(1) by (cases n) (simp_all add: takeWhile_nonzero_all takeWhile_tail)
  then show ?thesis
    using assms(2) by (simp add: strnlen_eq)
qed

lemma toStringView_text_of:
  "length mData = capacity \<Longrightarrow> toStringView capacity mData = text_of mData"
  by (simp add: toStringView_def text_of_def take_strnlen)

section \<open>\<^verbatim>\<open>toStringView\<close> and \<^verbatim>\<open>toString\<close>\<close>

text \<open>
  C8. For a buffer of \<open>capacity\<close> bytes, \<open>toStringView\<close> and \<open>toString\<close> return the bytes
  of the buffer before its first zero byte; when the buffer has no zero byte they return
  all \<open>capacity\<close> bytes; the result is never longer than the capacity.
\<close>

theorem toStringView_upto_first_zero:
  assumes "valid_FixedString capacity mData"
  shows "toStringView capacity mData = takeWhile (\<lambda>c. c \<noteq> 0) mData
       \<and> toString capacity mData = takeWhile (\<lambda>c. c \<noteq> 0) mData
       \<and> (0 \<notin> set mData \<longrightarrow> toStringView capacity mData = mData
             \<and> toString capacity mData = mData)
       \<and> length (toStringView capacity mData) \<le> capacity
       \<and> length (toString capacity mData) \<le> capacity"
proof -
  from assms have len: "length mData = capacity"
    by (simp add: valid_FixedString_def)
  have v: "toStringView capacity mData = takeWhile (\<lambda>c. c \<noteq> 0) mData"
    using len by (simp add: toStringView_def take_strnlen)
  have full: "0 \<notin> set mData \<Longrightarrow> takeWhile (\<lambda>c. c \<noteq> 0) mData = mData"
    by (rule takeWhile_eq_all_conv [THEN iffD2]) auto
  have bound: "length (takeWhile (\<lambda>c. c \<noteq> 0) mData) \<le> capacity"
    using len length_takeWhile_le [of "\<lambda>c. c \<noteq> 0" mData] by simp
  show ?thesis
    using v full bound by (simp add: toString_def)
qed

theorem toStringView_upto_first_zero_witness:
  "valid_FixedString 4 [0x54, 0x45, 0, 0x33]
   \<and> toStringView 4 [0x54, 0x45, 0, 0x33] = [0x54, 0x45]
   \<and> toString 4 [0x54, 0x45, 0, 0x33] = [0x54, 0x45]
   \<and> valid_FixedString 4 [0x54, 0x45, 0x53, 0x33]
   \<and> 0 \<notin> set [0x54, 0x45, 0x53, 0x33 :: byte]
   \<and> toStringView 4 [0x54, 0x45, 0x53, 0x33] = [0x54, 0x45, 0x53, 0x33]"
proof -
  have h1: "valid_FixedString 4 [0x54, 0x45, 0, 0x33]"
    by (simp add: valid_FixedString_def)
  have h2: "valid_FixedString 4 [0x54, 0x45, 0x53, 0x33]"
    by (simp add: valid_FixedString_def)
  have h3: "0 \<notin> set [0x54, 0x45, 0x53, 0x33 :: byte]"
    by simp
  show ?thesis
    using h1 h2 h3 toStringView_upto_first_zero [OF h1] toStringView_upto_first_zero [OF h2]
    by simp
qed

section \<open>Tags as integers\<close>

lemma pack_unpack_le:
  "pack_le (ucast v) (ucast (drop_bit 8 v)) (ucast (drop_bit 16 v)) (ucast (drop_bit 24 v)) = v"
  unfolding pack_le_def
proof (rule bit_word_eqI)
  fix n :: nat
  assume "n < LENGTH(32)"
  then consider "n < 8" | "8 \<le> n" "n < 16" | "16 \<le> n" "n < 24" | "24 \<le> n" "n < 32"
    by fastforce
  then show "bit (ucast (ucast v :: byte) OR push_bit 8 (ucast (ucast (drop_bit 8 v) :: byte)) OR
       push_bit 16 (ucast (ucast (drop_bit 16 v) :: byte)) OR
       push_bit 24 (ucast (ucast (drop_bit 24 v) :: byte)) :: 32 word) n = bit v n"
    by cases (auto simp: bit_simps)
qed

lemma pack_le_add:
  "pack_le b0 b1 b2 b3
     = ucast b0 + (push_bit 8 (ucast b1) + (push_bit 16 (ucast b2) + push_bit 24 (ucast b3)))"
proof -
  define A :: "32 word" where "A = ucast b0"
  define B :: "32 word" where "B = push_bit 8 (ucast b1)"
  define C :: "32 word" where "C = push_bit 16 (ucast b2)"
  define D :: "32 word" where "D = push_bit 24 (ucast b3)"
  have cd: "C + D = C OR D"
    unfolding C_def D_def
    by (rule disjunctive_add_eq_or) (auto simp: bit_eq_iff bit_simps dest: bit_imp_le_length)
  have bcd: "B + (C OR D) = B OR (C OR D)"
    unfolding B_def C_def D_def
    by (rule disjunctive_add_eq_or) (auto simp: bit_eq_iff bit_simps dest: bit_imp_le_length)
  have abcd: "A + (B OR (C OR D)) = A OR (B OR (C OR D))"
    unfolding A_def B_def C_def D_def
    by (rule disjunctive_add_eq_or) (auto simp: bit_eq_iff bit_simps dest: bit_imp_le_length)
  have "pack_le b0 b1 b2 b3 = A OR (B OR (C OR D))"
    unfolding pack_le_def A_def B_def C_def D_def by (simp add: or.assoc)
  also have "\<dots> = A + (B + (C + D))"
    by (simp only: cd bcd abcd)
  finally show ?thesis
    unfolding A_def B_def C_def D_def .
qed

lemma unat_byte_less: "unat (b :: byte) < 256"
  using unsigned_less [of b, where 'a = nat] by simp

lemma unat_pack_le:
  "unat (pack_le b0 b1 b2 b3)
     = unat b0 + 256 * unat b1 + 65536 * unat b2 + 16777216 * unat b3"
  using unat_byte_less [of b0] unat_byte_less [of b1] unat_byte_less [of b2]
    unat_byte_less [of b3]
  by (simp add: pack_le_add push_bit_eq_mult unat_word_ariths unsigned_ucast_eq
      take_bit_eq_mod)

lemma pack_le_zero: "pack_le 0 0 0 0 = 0"
  by (simp add: pack_le_def)

lemma toInt_zeros: "toInt host (replicate 4 0) = 0"
  by (cases host) (simp_all add: toInt_def load_u32_def pack_le_zero numeral_nat)

lemma four_bytes:
  assumes "length (m :: byte list) = 4"
  obtains b0 b1 b2 b3 where "m = [b0, b1, b2, b3]"
  using assms by (auto simp: numeral_eq_Suc length_Suc_conv)

text \<open>
  C3. For every 32-bit value \<open>tag\<close>, storing it into a four-byte \<open>FixedString\<close> with
  \<^verbatim>\<open>operator=(std::uint32_t)\<close> and reading it back with \<open>toInt\<close> returns \<open>tag\<close>, on
  either host byte order and whatever the buffer held before.
\<close>

theorem toInt_assign_uint32_roundtrip:
  "toInt host (assign_uint32 host mData tag) = tag"
  by (cases host)
    (simp_all add: toInt_def assign_uint32_def memcpy_def load_u32_def store_u32_def
      unpack_le_def pack_unpack_le)

theorem toInt_assign_uint32_roundtrip_witness:
  "toInt LittleEndian (assign_uint32 LittleEndian [0, 0, 0, 0] 0x33534554) = 0x33534554
   \<and> assign_uint32 LittleEndian [0, 0, 0, 0] 0x33534554 = [0x54, 0x45, 0x53, 0x33]
   \<and> toInt BigEndian (assign_uint32 BigEndian [0, 0, 0, 0] 0x33534554) = 0x33534554"
  using toInt_assign_uint32_roundtrip [of LittleEndian "[0, 0, 0, 0]" "0x33534554"]
    toInt_assign_uint32_roundtrip [of BigEndian "[0, 0, 0, 0]" "0x33534554"]
  by (simp add: assign_uint32_def store_u32_def unpack_le_def memcpy_def drop_bit_eq_div)

text \<open>
  C5, as the code has it. \<open>toInt\<close> copies the four bytes into a \<^verbatim>\<open>std::uint32_t\<close>, so
  the value is the host's reading of them: on a little-endian host byte 0 is the least
  significant and the result is \<open>b0 + 256 * b1 + 65536 * b2 + 16777216 * b3\<close>; on a
  big-endian host byte 3 is the least significant.
\<close>

theorem toInt_host_byte_order:
  assumes "valid_FixedString 4 mData"
  shows "unat (toInt LittleEndian mData) = le_value mData
       \<and> unat (toInt BigEndian mData) = le_value (rev mData)"
proof -
  from assms have "length mData = 4"
    by (simp add: valid_FixedString_def)
  then obtain b0 b1 b2 b3 where m: "mData = [b0, b1, b2, b3]"
    by (rule four_bytes)
  show ?thesis
    by (simp add: m toInt_def load_u32_def le_value_def unat_pack_le)
qed

theorem toInt_host_byte_order_witness:
  "valid_FixedString 4 [0x54, 0x45, 0x53, 0x33]
   \<and> toInt LittleEndian [0x54, 0x45, 0x53, 0x33] = 0x33534554
   \<and> toInt BigEndian [0x54, 0x45, 0x53, 0x33] = 0x54455333"
proof -
  have h: "valid_FixedString 4 [0x54, 0x45, 0x53, 0x33]"
    by (simp add: valid_FixedString_def)
  have "unat (toInt LittleEndian [0x54, 0x45, 0x53, 0x33]) = unat (0x33534554 :: 32 word)"
    and "unat (toInt BigEndian [0x54, 0x45, 0x53, 0x33]) = unat (0x54455333 :: 32 word)"
    using toInt_host_byte_order [OF h] by (simp_all add: le_value_def)
  then show ?thesis
    using h by (simp only: word_unat_eq_iff [symmetric] simp_thms)
qed

text \<open>
  C5 as stated promises the little-endian value on every host. On a big-endian host the
  buffer \<open>[1, 0, 0, 0]\<close> reads as \<open>16777216\<close>, not \<open>1\<close>.
\<close>

theorem toInt_big_endian_counterexample:
  "unat (toInt BigEndian [1, 0, 0, 0]) \<noteq> le_value [1, 0, 0, 0]"
  by (simp add: toInt_def load_u32_def le_value_def unat_pack_le)

section \<open>\<^verbatim>\<open>assign\<close>\<close>

lemma length_assign:
  "length mData = capacity \<Longrightarrow> length (assign capacity mData val) = capacity"
  by (auto simp: assign_def clear_def memset_def memcpy_def Let_def)

lemma assign_empty: "length mData = capacity \<Longrightarrow> assign capacity mData [] = replicate capacity 0"
  by (simp add: assign_def clear_def memset_def)

lemma assign_short_not4:
  assumes "length mData = capacity" "val \<noteq> []" "length val < capacity" "capacity \<noteq> 4"
  shows "assign capacity mData val = val @ 0 # drop (Suc (length val)) mData"
  using assms
  by (simp add: assign_def memcpy_def Let_def list_update_append Cons_nth_drop_Suc
      upd_conv_take_nth_drop)

lemma assign_short_4:
  assumes "length mData = 4" "val \<noteq> []" "length val < 4"
  shows "assign 4 mData val = val @ replicate (4 - length val) 0"
  using assms
  by (simp add: assign_def memcpy_def memset_def Let_def)

lemma assign_long_not4:
  assumes "length mData = capacity" "0 < capacity" "capacity \<le> length val" "capacity \<noteq> 4"
  shows "assign capacity mData val = take (capacity - 1) val @ [0]"
proof -
  have val: "val \<noteq> []" using assms by auto
  have "(take capacity val)[capacity - 1 := 0] = take (capacity - 1) val @ [0]"
    using assms by (simp add: upd_conv_take_nth_drop min_def)
  then show ?thesis
    using assms val by (simp add: assign_def memcpy_def Let_def)
qed

lemma assign_long_4:
  assumes "length mData = 4" "4 \<le> length val"
  shows "assign 4 mData val = take 4 val"
  using assms
  by (auto simp add: assign_def memcpy_def Let_def)

text \<open>
  C9. For every capacity, \<open>assign\<close> with the empty string sets every byte of the buffer to
  zero, as \<open>clear\<close> does; \<open>toStringView\<close> is then empty and, for capacity 4, \<open>toInt\<close>
  is 0 on either host.
\<close>

theorem assign_empty_clears:
  assumes "valid_FixedString capacity mData"
  shows "assign capacity mData [] = clear capacity mData
       \<and> assign capacity mData [] = replicate capacity 0
       \<and> toStringView capacity (assign capacity mData []) = []
       \<and> (capacity = 4 \<longrightarrow> toInt host (assign capacity mData []) = 0)"
proof -
  from assms have len: "length mData = capacity"
    by (simp add: valid_FixedString_def)
  have z: "assign capacity mData [] = replicate capacity 0"
    using len by (rule assign_empty)
  have c: "assign capacity mData [] = clear capacity mData"
    by (simp add: assign_def)
  have v: "toStringView capacity (assign capacity mData []) = []"
    unfolding z by (simp add: toStringView_def strnlen_zeros)
  have i: "toInt host (assign capacity mData []) = 0" if "capacity = 4"
    unfolding z using that toInt_zeros [of host] by simp
  show ?thesis
    using z c v i by blast
qed

theorem assign_empty_clears_witness:
  "valid_FixedString 4 [0x54, 0x45, 0x53, 0x33]
   \<and> assign 4 [0x54, 0x45, 0x53, 0x33] [] = [0, 0, 0, 0]
   \<and> toStringView 4 (assign 4 [0x54, 0x45, 0x53, 0x33] []) = []
   \<and> toInt LittleEndian (assign 4 [0x54, 0x45, 0x53, 0x33] []) = 0"
proof -
  have h: "valid_FixedString 4 [0x54, 0x45, 0x53, 0x33]"
    by (simp add: valid_FixedString_def)
  have r: "replicate 4 (0::byte) = [0, 0, 0, 0]"
    by (simp add: numeral_eq_Suc)
  from h assign_empty_clears [OF h, of LittleEndian, unfolded r] show ?thesis
    by blast
qed

text \<open>
  C10. For a capacity other than 4 and any input, possibly too long, the buffer after
  \<open>assign\<close> has a zero byte at index \<open>min (length val) (capacity - 1)\<close>, so it contains a
  zero byte and \<open>toStringView\<close> has at most \<open>capacity - 1\<close> bytes. For capacity 4 and an
  input of at least four bytes the buffer is the first four bytes of the input, with no
  terminator added: when those bytes are not zero, \<open>toStringView\<close> has all four.
\<close>

theorem assign_null_terminates:
  assumes "valid_FixedString capacity mData"
  shows "(capacity \<noteq> 4 \<longrightarrow>
            assign capacity mData val ! min (length val) (capacity - 1) = 0
          \<and> 0 \<in> set (assign capacity mData val)
          \<and> length (toStringView capacity (assign capacity mData val)) \<le> capacity - 1)
       \<and> (capacity = 4 \<and> 4 \<le> length val \<longrightarrow>
            assign capacity mData val = take 4 val
          \<and> (0 \<notin> set (take 4 val) \<longrightarrow>
                length (toStringView capacity (assign capacity mData val)) = 4))"
proof -
  from assms have len: "length mData = capacity" and pos: "0 < capacity"
    by (simp_all add: valid_FixedString_def)
  let ?b = "assign capacity mData val"
  let ?k = "min (length val) (capacity - 1)"
  have lb: "length ?b = capacity"
    using len by (rule length_assign)
  have k: "?k < capacity"
    using pos by simp
  have zero: "?b ! ?k = 0" if ne4: "capacity \<noteq> 4"
  proof -
    consider "val = []" | "val \<noteq> []" "length val < capacity" | "capacity \<le> length val"
      by fastforce
    then show ?thesis
    proof cases
      case 1
      then show ?thesis using len pos by (simp add: assign_empty)
    next
      case 2
      then have "?k = length val" by simp
      then show ?thesis using 2 len ne4 by (simp add: assign_short_not4)
    next
      case 3
      then have "?k = capacity - 1" by simp
      then show ?thesis using 3 len pos ne4 by (simp add: assign_long_not4 nth_append)
    qed
  qed
  have mem: "0 \<in> set ?b" if ne4: "capacity \<noteq> 4"
    using zero [OF ne4] k lb by (metis nth_mem)
  have short: "length (toStringView capacity ?b) \<le> capacity - 1" if ne4: "capacity \<noteq> 4"
  proof -
    have "strnlen ?b capacity \<le> ?k"
      using zero [OF ne4] k lb by (intro strnlen_zero_at) simp_all
    then show ?thesis
      by (auto simp: toStringView_def)
  qed
  have four: "?b = take 4 val" if "capacity = 4" "4 \<le> length val"
    using that len by (simp add: assign_long_4)
  have full: "length (toStringView capacity ?b) = 4"
    if "capacity = 4" "4 \<le> length val" "0 \<notin> set (take 4 val)"
  proof -
    have tw: "takeWhile (\<lambda>c. c \<noteq> 0) (take 4 val) = take 4 val"
      using that(3) by (intro takeWhile_eq_all_conv [THEN iffD2]) auto
    have "strnlen (take 4 val) 4 = length (takeWhile (\<lambda>c. c \<noteq> 0) (take 4 val))"
      by (rule strnlen_eq) simp
    also have "\<dots> = 4"
      unfolding tw using that(2) by simp
    finally show ?thesis
      using that four by (simp add: toStringView_def)
  qed
  show ?thesis
    using zero mem short four full by blast
qed

theorem assign_null_terminates_witness:
  "valid_FixedString 3 [0x78, 0x78, 0x78]
   \<and> assign 3 [0x78, 0x78, 0x78] [0x61, 0x62, 0x63, 0x64] = [0x61, 0x62, 0]
   \<and> length (toStringView 3 (assign 3 [0x78, 0x78, 0x78] [0x61, 0x62, 0x63, 0x64])) \<le> 3 - 1
   \<and> valid_FixedString 4 [0, 0, 0, 0]
   \<and> assign 4 [0, 0, 0, 0] [0x61, 0x62, 0x63, 0x64, 0x65] = [0x61, 0x62, 0x63, 0x64]
   \<and> length (toStringView 4 (assign 4 [0, 0, 0, 0] [0x61, 0x62, 0x63, 0x64, 0x65])) = 4"
proof -
  have h1: "valid_FixedString 3 [0x78, 0x78, 0x78]"
    and h2: "valid_FixedString 4 [0, 0, 0, 0]"
    by (simp_all add: valid_FixedString_def)
  have a1: "assign 3 [0x78, 0x78, 0x78] [0x61, 0x62, 0x63, 0x64] = [0x61, 0x62, 0]"
    by (simp add: assign_def memcpy_def)
  show ?thesis
    using h1 h2 a1
      assign_null_terminates [OF h1, of "[0x61, 0x62, 0x63, 0x64]"]
      assign_null_terminates [OF h2, of "[0x61, 0x62, 0x63, 0x64, 0x65]"]
    by (simp add: toStringView_def)
qed

lemma zero_padded_assign_4:
  assumes "length mData = 4" "0 \<notin> set val"
  shows "zero_padded 4 (assign 4 mData val)"
proof -
  consider "val = []" | "val \<noteq> []" "length val < 4" | "4 \<le> length val"
    by fastforce
  then show ?thesis
  proof cases
    case 1
    then show ?thesis
      using assms(1) by (simp add: assign_empty zero_padded_def strnlen_zeros list_all_iff)
  next
    case 2
    then have "strnlen (val @ replicate (4 - length val) 0) 4 = length val"
      using assms(2) by (intro strnlen_padded) simp_all
    then show ?thesis
      using 2 assms(1) by (simp add: assign_short_4 zero_padded_def list_all_iff)
  next
    case 3
    have "0 \<notin> set (take 4 val)"
      using assms(2) by (auto dest: in_set_takeD)
    then have "strnlen (take 4 val @ replicate 0 0) 4 = length (take 4 val)"
      by (intro strnlen_padded) simp_all
    then show ?thesis
      using 3 assms(1) by (simp add: assign_long_4 zero_padded_def)
  qed
qed

text \<open>
  C1, as the code has it. For capacity 4 and an input without a zero byte, every byte of
  the buffer from the logical length on is zero after \<open>assign\<close>, whatever the buffer held
  before; the same holds for every capacity when the input is empty. For a capacity other
  than 4 and a non-empty input, \<open>assign\<close> copies the input (cut to \<open>capacity - 1\<close> bytes),
  writes one zero byte after it, and leaves every byte above that terminator as it was:
  the tail is not zero-padded.
\<close>

theorem assign_padding_by_capacity_class:
  assumes "valid_FixedString capacity mData"
  shows "(capacity = 4 \<and> 0 \<notin> set val \<longrightarrow> zero_padded capacity (assign capacity mData val))
       \<and> (val = [] \<longrightarrow> zero_padded capacity (assign capacity mData val))
       \<and> (capacity \<noteq> 4 \<and> val \<noteq> [] \<longrightarrow>
             take (min (length val) (capacity - 1)) (assign capacity mData val)
               = take (capacity - 1) val
           \<and> assign capacity mData val ! min (length val) (capacity - 1) = 0
           \<and> (\<forall>i. length val < i \<and> i < capacity \<longrightarrow>
                 assign capacity mData val ! i = mData ! i))"
proof -
  from assms have len: "length mData = capacity" and pos: "0 < capacity"
    by (simp_all add: valid_FixedString_def)
  have four: "zero_padded capacity (assign capacity mData val)" if "capacity = 4" "0 \<notin> set val"
    using that len by (simp add: zero_padded_assign_4)
  have empty: "zero_padded capacity (assign capacity mData val)" if "val = []"
    using that len by (simp add: assign_empty zero_padded_def strnlen_zeros list_all_iff)
  have other: "take (min (length val) (capacity - 1)) (assign capacity mData val)
               = take (capacity - 1) val
           \<and> assign capacity mData val ! min (length val) (capacity - 1) = 0
           \<and> (\<forall>i. length val < i \<and> i < capacity \<longrightarrow>
                 assign capacity mData val ! i = mData ! i)"
    if ne4: "capacity \<noteq> 4" and ne: "val \<noteq> []"
  proof (cases "length val < capacity")
    case True
    then have k: "min (length val) (capacity - 1) = length val"
      by simp
    have b: "assign capacity mData val = val @ 0 # drop (Suc (length val)) mData"
      using len ne True ne4 by (rule assign_short_not4)
    have "(val @ 0 # drop (Suc (length val)) mData) ! i = mData ! i"
      if "length val < i" "i < capacity" for i
    proof -
      have "(val @ 0 # drop (Suc (length val)) mData) ! i
              = drop (Suc (length val)) mData ! (i - Suc (length val))"
        using that by (simp add: nth_append nth_Cons')
      also have "\<dots> = mData ! (Suc (length val) + (i - Suc (length val)))"
        using that len by (intro nth_drop) simp
      also have "\<dots> = mData ! i"
        using that by simp
      finally show ?thesis .
    qed
    then show ?thesis
      using True by (simp add: k b)
  next
    case False
    then have k: "min (length val) (capacity - 1) = capacity - 1"
      by simp
    have b: "assign capacity mData val = take (capacity - 1) val @ [0]"
      using len pos False ne4 by (intro assign_long_not4) simp_all
    have t1: "take (min (length val) (capacity - 1)) (assign capacity mData val)
                = take (capacity - 1) val"
      using False by (simp add: k b)
    have t2: "assign capacity mData val ! min (length val) (capacity - 1) = 0"
      using False pos by (simp add: k b nth_append)
    have t3: "\<forall>i. length val < i \<and> i < capacity \<longrightarrow>
                 assign capacity mData val ! i = mData ! i"
      using False by auto
    show ?thesis
      using t1 t2 t3 by blast
  qed
  show ?thesis
    using four empty other by blast
qed

theorem assign_padding_by_capacity_class_witness:
  "valid_FixedString 4 [0x78, 0x78, 0x78, 0x78] \<and> 0 \<notin> set [0x61 :: byte]
   \<and> zero_padded 4 (assign 4 [0x78, 0x78, 0x78, 0x78] [0x61])
   \<and> valid_FixedString 3 [0x78, 0x79, 0x7a]
   \<and> zero_padded 3 (assign 3 [0x78, 0x79, 0x7a] [])
   \<and> assign 3 [0x78, 0x79, 0x7a] [0x61] ! 1 = 0
   \<and> assign 3 [0x78, 0x79, 0x7a] [0x61] ! 2 = 0x7a"
proof -
  have h1: "valid_FixedString 4 [0x78, 0x78, 0x78, 0x78]"
    and h2: "valid_FixedString 3 [0x78, 0x79, 0x7a]"
    by (simp_all add: valid_FixedString_def)
  show ?thesis
    using h1 h2
      assign_padding_by_capacity_class [OF h1, of "[0x61]"]
      assign_padding_by_capacity_class [OF h2, of "[]"]
      assign_padding_by_capacity_class [OF h2, of "[0x61]"]
    by simp
qed

text \<open>
  C1 as stated fails for a capacity other than 4: a buffer of eight bytes \<open>0x78\<close> that is
  assigned the one-byte text \<open>0x61\<close> keeps \<open>0x78\<close> in its bytes 2 to 7.
\<close>

theorem assign_leaves_tail_counterexample:
  "\<not> zero_padded 8 (assign 8 [0x78, 0x78, 0x78, 0x78, 0x78, 0x78, 0x78, 0x78] [0x61])"
  by (simp add: zero_padded_def assign_def memcpy_def)

text \<open>A zero byte inside the input has the same effect for capacity 4.\<close>

lemma assign_embedded_zero:
  "\<not> zero_padded 4 (assign 4 [0, 0, 0, 0] [0x61, 0, 0x62])"
  by (simp add: zero_padded_def assign_def memcpy_def memset_def)

section \<open>Equality with a C string\<close>

lemma eq_cstr_loop_drop:
  "length lhs = capacity \<Longrightarrow> i \<le> capacity \<Longrightarrow>
     eq_cstr_loop capacity lhs rhs i = cmp_cstr (drop i lhs) (drop i rhs)"
proof (induction capacity lhs rhs i rule: eq_cstr_loop.induct)
  case (1 capacity lhs rhs i)
  show ?case
  proof (cases "i < capacity")
    case False
    with 1 have i: "i = capacity" by simp
    show ?thesis
    proof (cases "capacity < length rhs")
      case True
      then have "drop capacity rhs = rhs ! capacity # drop (Suc capacity) rhs"
        by (simp add: Cons_nth_drop_Suc)
      then show ?thesis
        using 1(2) True i by (subst eq_cstr_loop.simps) simp
    next
      case False
      then show ?thesis
        using 1(2) i by (subst eq_cstr_loop.simps) simp
    qed
  next
    case True
    then have il: "i < length lhs" using 1(2) by simp
    then have dl: "drop i lhs = lhs ! i # drop (Suc i) lhs"
      by (simp add: Cons_nth_drop_Suc)
    show ?thesis
    proof (cases "i < length rhs")
      case False
      then show ?thesis
        using True il dl by (subst eq_cstr_loop.simps) simp
    next
      case ir: True
      then have dr: "drop i rhs = rhs ! i # drop (Suc i) rhs"
        by (simp add: Cons_nth_drop_Suc)
      show ?thesis
      proof (cases "lhs ! i \<noteq> rhs ! i \<or> lhs ! i = 0")
        case True
        then show ?thesis
          using \<open>i < capacity\<close> il ir dl dr by (subst eq_cstr_loop.simps) auto
      next
        case False
        then have "eq_cstr_loop capacity lhs rhs (Suc i)
                     = cmp_cstr (drop (Suc i) lhs) (drop (Suc i) rhs)"
          using 1 \<open>i < capacity\<close> il ir by (intro "1.IH") auto
        then show ?thesis
          using False \<open>i < capacity\<close> il ir dl dr by (subst eq_cstr_loop.simps) auto
      qed
    qed
  qed
qed

lemma cmp_cstr_text:
  "0 \<in> set rhs \<Longrightarrow> cmp_cstr lhs rhs = Some (text_of lhs = text_of rhs)"
  by (induction lhs rhs rule: cmp_cstr.induct) (auto simp: text_of_def)

text \<open>
  C4. For a buffer \<open>lhs\<close> of \<open>capacity\<close> bytes and a null-terminated string \<open>rhs\<close>, the
  pointer overload of \<^verbatim>\<open>operator==\<close> reads no byte beyond the terminator of \<open>rhs\<close> and
  returns true exactly when the text of \<open>lhs\<close> (its bytes before the first zero byte, all
  of them when there is none) is the text of \<open>rhs\<close> before its terminator.
\<close>

theorem eq_cstr_compares_texts:
  assumes "valid_FixedString capacity lhs" and "0 \<in> set rhs"
  shows "eq_cstr capacity lhs rhs
           = Some (toStringView capacity lhs = takeWhile (\<lambda>c. c \<noteq> 0) rhs)"
proof -
  from assms(1) have len: "length lhs = capacity"
    by (simp add: valid_FixedString_def)
  have "eq_cstr capacity lhs rhs = cmp_cstr lhs rhs"
    using len by (simp add: eq_cstr_def eq_cstr_loop_drop)
  also have "\<dots> = Some (text_of lhs = text_of rhs)"
    using assms(2) by (rule cmp_cstr_text)
  finally show ?thesis
    using len by (simp add: toStringView_text_of text_of_def)
qed

theorem eq_cstr_compares_texts_witness:
  "valid_FixedString 4 [0x54, 0x45, 0, 0x33] \<and> 0 \<in> set [0x54, 0x45, 0 :: byte]
   \<and> eq_cstr 4 [0x54, 0x45, 0, 0x33] [0x54, 0x45, 0] = Some True
   \<and> valid_FixedString 4 [0x54, 0x45, 0x53, 0x33] \<and> 0 \<in> set [0x54, 0x45, 0x53, 0x33, 0 :: byte]
   \<and> eq_cstr 4 [0x54, 0x45, 0x53, 0x33] [0x54, 0x45, 0x53, 0x33, 0] = Some True
   \<and> eq_cstr 4 [0x54, 0x45, 0x53, 0x33] [0x54, 0x45, 0] = Some False"
proof -
  have h1: "valid_FixedString 4 [0x54, 0x45, 0, 0x33]"
    and h2: "valid_FixedString 4 [0x54, 0x45, 0x53, 0x33]"
    by (simp_all add: valid_FixedString_def)
  have z1: "0 \<in> set [0x54, 0x45, 0 :: byte]"
    and z2: "0 \<in> set [0x54, 0x45, 0x53, 0x33, 0 :: byte]"
    by simp_all
  show ?thesis
    using h1 h2 z1 z2 eq_cstr_compares_texts [OF h1 z1] eq_cstr_compares_texts [OF h2 z2]
      eq_cstr_compares_texts [OF h2 z1]
    by (simp add: toStringView_def)
qed

section \<open>Saving and restoring a context\<close>

text \<open>The operations of the reader stay on the same file, so a context saved before them
  can be restored after them.\<close>

lemma peekSubrecordTag_same_file:
  "peekSubrecordTag r = Inr (tag, r1) \<Longrightarrow>
     input r1 = input r \<and> filename (mCtx r1) = filename (mCtx r)"
  by (auto simp: peekSubrecordTag_def split: if_splits option.splits)

lemma nextSubrecordHeader_same_file:
  "nextSubrecordHeader r = Inr (res, r1) \<Longrightarrow>
     input r1 = input r \<and> filename (mCtx r1) = filename (mCtx r)"
  by (auto simp: nextSubrecordHeader_def split: if_splits option.splits)






section \<open>Peeking a subrecord tag\<close>

text \<open>
  C7. In \<open>InRecord\<close> with a subrecord left (a whole header before the end of the file and
  of the record, its declared length within the record), \<open>peekSubrecordTag\<close> followed by
  \<open>nextSubrecordHeader\<close> succeeds, \<open>nextSubrecordHeader\<close> returns the tag that the peek
  returned, and the cursor ends exactly one header (eight bytes) after the start of that
  header: the cached tag is reused, not read again. The reader is left as a
  \<open>nextSubrecordHeader\<close> without the peek leaves it.
\<close>

theorem peek_then_next_one_header:
  assumes "state r = InRecord"
    and "subCached (mCtx r) \<longrightarrow> 4 \<le> cursor r"
    and "header_start r + 8 \<le> length (input r)"
    and "read_u32 (input r) (header_start r + 4) = Some len"
    and "subrecord_header_size \<le> unat (leftRec (mCtx r))"
    and "unat len \<le> unat (leftRec (mCtx r)) - subrecord_header_size"
  shows "\<exists>tag r1 r2.
           peekSubrecordTag r = Inr (tag, r1)
         \<and> nextSubrecordHeader r1 = Inr (Some tag, r2)
         \<and> nextSubrecordHeader r = Inr (Some tag, r2)
         \<and> cursor r2 = header_start r + subrecord_header_size
         \<and> subName (mCtx r2) = tag \<and> \<not> subCached (mCtx r2)
         \<and> state r2 = InSubrecord \<and> leftSub (mCtx r2) = len
         \<and> (\<not> subCached (mCtx r) \<longrightarrow> tag = take 4 (drop (cursor r) (input r)))"
proof -
  have nz: "leftRec (mCtx r) \<noteq> 0"
    using assms(5) by (auto simp: subrecord_header_size_def)
  show ?thesis
  proof (cases "subCached (mCtx r)")
    case True
    then show ?thesis
      using assms nz
      by (simp add: peekSubrecordTag_def nextSubrecordHeader_def header_start_def
          subrecord_header_size_def)
  next
    case False
    then show ?thesis
      using assms nz
      by (simp add: peekSubrecordTag_def nextSubrecordHeader_def header_start_def
          subrecord_header_size_def read_name_def)
  qed
qed

theorem peek_then_next_one_header_witness:
  "(let fresh = \<lparr>input = [0x4e, 0x41, 0x4d, 0x45, 2, 0, 0, 0, 0x61, 0], cursor = 0,
        mCtx = \<lparr>filename = ''base.dat'', leftRec = 10, leftSub = 0, leftFile = 10,
                 recName = [0x4e, 0x50, 0x43, 0x5f], subName = [0, 0, 0, 0], index = 0,
                 parentFileIndices = [], subCached = False, filePos = 0\<rparr>,
        state = InRecord\<rparr>;
       peeked = fresh\<lparr>cursor := 4,
                 mCtx := (mCtx fresh)\<lparr>subName := [0x4e, 0x41, 0x4d, 0x45], subCached := True\<rparr>\<rparr>;
       done = fresh\<lparr>cursor := 8, state := InSubrecord,
                 mCtx := (mCtx fresh)\<lparr>leftRec := 2, leftSub := 2,
                           subName := [0x4e, 0x41, 0x4d, 0x45]\<rparr>\<rparr>
    in state fresh = InRecord \<and> \<not> subCached (mCtx fresh)
     \<and> peekSubrecordTag fresh = Inr ([0x4e, 0x41, 0x4d, 0x45], peeked)
     \<and> nextSubrecordHeader peeked = Inr (Some [0x4e, 0x41, 0x4d, 0x45], done)
     \<and> nextSubrecordHeader fresh = Inr (Some [0x4e, 0x41, 0x4d, 0x45], done)
     \<and> state peeked = InRecord \<and> subCached (mCtx peeked) \<and> 4 \<le> cursor peeked
     \<and> peekSubrecordTag peeked = Inr ([0x4e, 0x41, 0x4d, 0x45], peeked))"
proof -
  define fresh where "fresh = \<lparr>input = [0x4e, 0x41, 0x4d, 0x45, 2, 0, 0, 0, 0x61, 0 :: byte],
        cursor = 0,
        mCtx = \<lparr>filename = ''base.dat'', leftRec = 10, leftSub = 0, leftFile = 10,
                 recName = [0x4e, 0x50, 0x43, 0x5f], subName = [0, 0, 0, 0], index = 0,
                 parentFileIndices = [], subCached = False, filePos = 0\<rparr>,
        state = InRecord\<rparr>"
  define peeked where "peeked = fresh\<lparr>cursor := 4,
        mCtx := (mCtx fresh)\<lparr>subName := [0x4e, 0x41, 0x4d, 0x45], subCached := True\<rparr>\<rparr>"
  have f1: "state fresh = InRecord"
    and f2: "subCached (mCtx fresh) \<longrightarrow> 4 \<le> cursor fresh"
    and f3: "header_start fresh + 8 \<le> length (input fresh)"
    and f4: "read_u32 (input fresh) (header_start fresh + 4) = Some 2"
    and f5: "subrecord_header_size \<le> unat (leftRec (mCtx fresh))"
    and f6: "unat (2 :: 32 word) \<le> unat (leftRec (mCtx fresh)) - subrecord_header_size"
    by (simp_all add: fresh_def header_start_def read_u32_def pack_le_def
        subrecord_header_size_def)
  have p1: "state peeked = InRecord"
    and p2: "subCached (mCtx peeked) \<longrightarrow> 4 \<le> cursor peeked"
    and p3: "header_start peeked + 8 \<le> length (input peeked)"
    and p4: "read_u32 (input peeked) (header_start peeked + 4) = Some 2"
    and p5: "subrecord_header_size \<le> unat (leftRec (mCtx peeked))"
    and p6: "unat (2 :: 32 word) \<le> unat (leftRec (mCtx peeked)) - subrecord_header_size"
    by (simp_all add: peeked_def fresh_def header_start_def read_u32_def pack_le_def
        subrecord_header_size_def)
  from peek_then_next_one_header [OF f1 f2 f3 f4 f5 f6]
    peek_then_next_one_header [OF p1 p2 p3 p4 p5 p6]
  show ?thesis
    unfolding Let_def fresh_def [symmetric] peeked_def [symmetric]
    by (simp add: peeked_def fresh_def header_start_def subrecord_header_size_def
        peekSubrecordTag_def nextSubrecordHeader_def read_name_def read_u32_def pack_le_def)
qed

section \<open>The merged view of two files\<close>

lemma drain_pending: "length (pending ov) \<le> n \<Longrightarrow> drain n ov = pending ov"
proof (induction n arbitrary: ov)
  case 0
  then show ?case by simp
next
  case (Suc n)
  then show ?case
    by (cases "pending ov") (simp_all add: nextLogicalRecord_def)
qed

lemma ykey_surface: "ykey (surface i r) = rkey r"
  by (simp add: surface_def)

lemma scan_file_other: "k \<notin> rkey ` set rs \<Longrightarrow> scan_file i p rs m k = m k"
  by (induction rs arbitrary: p m) auto

lemma scan_file_last:
  "k \<in> rkey ` set rs \<Longrightarrow>
     \<exists>q. scan_file i p rs m k = Some (i, p + q) \<and> q < length rs
       \<and> rs ! q = last (filter (\<lambda>r. rkey r = k) rs)"
proof (induction rs arbitrary: p m)
  case Nil
  then show ?case by simp
next
  case (Cons r rs)
  show ?case
  proof (cases "k \<in> rkey ` set rs")
    case True
    from Cons.IH [OF True, of "Suc p" "m(rkey r \<mapsto> (i, p))"]
    obtain q where q: "scan_file i (Suc p) rs (m(rkey r \<mapsto> (i, p))) k = Some (i, Suc p + q)"
      "q < length rs" "rs ! q = last (filter (\<lambda>r. rkey r = k) rs)"
      by blast
    have ne: "filter (\<lambda>r. rkey r = k) rs \<noteq> []"
      using True by (auto simp: filter_empty_conv)
    show ?thesis
      using q ne by (intro exI [of _ "Suc q"]) simp
  next
    case False
    with Cons.prems have rk: "rkey r = k" by auto
    have "filter (\<lambda>r. rkey r = k) rs = []"
      using False by (auto simp: filter_empty_conv)
    then show ?thesis
      using False rk by (intro exI [of _ 0]) (simp add: scan_file_other)
  qed
qed

lemma stream_file_other_file:
  "m k = Some (j, q) \<Longrightarrow> j \<noteq> i \<Longrightarrow> filter (\<lambda>y. ykey y = k) (stream_file m i p rs) = []"
  by (induction rs arbitrary: p) (auto simp: ykey_surface)

lemma stream_file_passed:
  "m k = Some (i, q) \<Longrightarrow> q < p \<Longrightarrow> filter (\<lambda>y. ykey y = k) (stream_file m i p rs) = []"
  by (induction rs arbitrary: p) (auto simp: ykey_surface)

lemma stream_file_owner:
  "m k = Some (i, p + q) \<Longrightarrow> q < length rs \<Longrightarrow> rkey (rs ! q) = k \<Longrightarrow>
     filter (\<lambda>y. ykey y = k) (stream_file m i p rs) = [surface i (rs ! q)]"
proof (induction rs arbitrary: p q)
  case Nil
  then show ?case by simp
next
  case (Cons r rs)
  show ?case
  proof (cases q)
    case 0
    then show ?thesis
      using Cons.prems by (simp add: ykey_surface stream_file_passed)
  next
    case (Suc q')
    then have "filter (\<lambda>y. ykey y = k) (stream_file m i (Suc p) rs) = [surface i (rs ! q')]"
      using Cons.prems by (intro Cons.IH) simp_all
    then show ?thesis
      using Suc Cons.prems(1) by (simp add: ykey_surface)
  qed
qed

lemma length_stream_file: "length (stream_file m i p rs) \<le> length rs"
  by (induction rs arbitrary: p) (auto simp: le_SucI)

lemma stream_file_unowned:
  "m k = None \<Longrightarrow> filter (\<lambda>y. ykey y = k) (stream_file m i p rs) = []"
  by (induction rs arbitrary: p) (auto simp: ykey_surface)

lemma stream_file_at_most_one:
  "length (filter (\<lambda>y. ykey y = k) (stream_file m i p rs)) \<le> 1"
proof (induction rs arbitrary: p)
  case Nil
  then show ?case by simp
next
  case (Cons r rs)
  show ?case
  proof (cases "m (rkey r) = Some (i, p) \<and> rkey r = k")
    case True
    then have "m k = Some (i, p)"
      by auto
    then have "filter (\<lambda>y. ykey y = k) (stream_file m i (Suc p) rs) = []"
      by (rule stream_file_passed) simp
    then show ?thesis
      using True by (simp add: ykey_surface)
  next
    case False
    then show ?thesis
      using Cons.IH [of "Suc p"] by (auto simp: ykey_surface)
  qed
qed

lemma stream_files_later:
  "m k = Some (j, q) \<Longrightarrow> j < i \<Longrightarrow> filter (\<lambda>y. ykey y = k) (stream_files m i fs) = []"
  by (induction fs arbitrary: i) (simp_all add: stream_file_other_file)

lemma stream_files_at_most_one:
  "length (filter (\<lambda>y. ykey y = k) (stream_files m i fs)) \<le> 1"
proof (induction fs arbitrary: i)
  case Nil
  then show ?case by simp
next
  case (Cons f fs)
  show ?case
  proof (cases "m k")
    case None
    then show ?thesis
      using Cons.IH [of "Suc i"] by (simp add: stream_file_unowned)
  next
    case (Some jq)
    obtain j q where jq: "jq = (j, q)" by (cases jq)
    show ?thesis
    proof (cases "j = i")
      case True
      then have "filter (\<lambda>y. ykey y = k) (stream_files m (Suc i) fs) = []"
        using Some jq by (intro stream_files_later [where j = j and q = q]) simp_all
      then show ?thesis
        using stream_file_at_most_one [of k m i 0 f] by simp
    next
      case False
      then have "filter (\<lambda>y. ykey y = k) (stream_file m i 0 f) = []"
        using Some jq by (intro stream_file_other_file [where j = j and q = q]) simp_all
      then show ?thesis
        using Cons.IH [of "Suc i"] by simp
    qed
  qed
qed

lemma overlay_at_most_one_per_key:
  "length (filter (\<lambda>y. ykey y = k) (pending (newOverlay files))) \<le> 1"
  using stream_files_at_most_one [of k "scan_files 0 files Map.empty" 0 files]
  by (simp add: newOverlay_def Let_def)

lemma pending_two_files:
  assumes "k \<in> rkey ` set A" and "k \<in> rkey ` set B"
  shows "filter (\<lambda>y. ykey y = k) (pending (newOverlay [A, B]))
           = [surface 1 (last (filter (\<lambda>r. rkey r = k) B))]"
proof -
  define m where "m = scan_file 1 0 B (scan_file 0 0 A Map.empty)"
  from scan_file_last [OF assms(2), of 1 0 "scan_file 0 0 A Map.empty"]
  obtain q where q: "m k = Some (1, q)" "q < length B"
    "B ! q = last (filter (\<lambda>r. rkey r = k) B)"
    unfolding m_def by auto
  have "filter (\<lambda>r. rkey r = k) B \<noteq> []"
    using assms(2) by (auto simp: filter_empty_conv)
  then have "last (filter (\<lambda>r. rkey r = k) B) \<in> set (filter (\<lambda>r. rkey r = k) B)"
    by (rule last_in_set)
  then have key: "rkey (B ! q) = k"
    using q(3) by simp
  have a: "filter (\<lambda>y. ykey y = k) (stream_file m 0 0 A) = []"
    using q(1) by (intro stream_file_other_file [where j = 1 and q = q]) simp_all
  have b: "filter (\<lambda>y. ykey y = k) (stream_file m 1 0 B) = [surface 1 (B ! q)]"
    using q(1,2) key by (intro stream_file_owner) simp_all
  have "pending (newOverlay [A, B]) = stream_file m 0 0 A @ stream_file m 1 0 B"
    by (simp add: newOverlay_def Let_def m_def)
  then show ?thesis
    using a b q(3) by simp
qed

lemma length_pending_two_files: "length (pending (newOverlay [A, B])) \<le> length A + length B"
  using length_stream_file [of "scan_files 0 [A, B] Map.empty" 0 0 A]
    length_stream_file [of "scan_files 0 [A, B] Map.empty" 1 0 B]
  by (simp add: newOverlay_def Let_def)

text \<open>
  C2. For a base file \<open>A\<close> and an override \<open>B\<close> that both define the key \<open>k\<close>, the items
  that \<open>nextLogicalRecord\<close> yields for \<open>k\<close> until the end of the stream are exactly one: the
  entry of \<open>B\<close> for \<open>k\<close>, with file index 1. When that entry has the \<open>Blocked\<close> flag the
  one item is a tombstone and no visible record for \<open>k\<close> is yielded at all.
\<close>

theorem overlay_later_file_wins:
  assumes "k \<in> rkey ` set A" and "k \<in> rkey ` set B" and "length A + length B \<le> n"
  shows "filter (\<lambda>y. ykey y = k) (drain n (newOverlay [A, B]))
           = (if is_blocked (last (filter (\<lambda>r. rkey r = k) B))
              then [Tombstone 1 k]
              else [Visible 1 (last (filter (\<lambda>r. rkey r = k) B))])
       \<and> last (filter (\<lambda>r. rkey r = k) B) \<in> set B
       \<and> (is_blocked (last (filter (\<lambda>r. rkey r = k) B)) \<longrightarrow>
            (\<forall>i r. rkey r = k \<longrightarrow> Visible i r \<notin> set (drain n (newOverlay [A, B]))))"
proof -
  let ?b = "last (filter (\<lambda>r. rkey r = k) B)"
  let ?out = "drain n (newOverlay [A, B])"
  have d: "?out = pending (newOverlay [A, B])"
    using assms(3) length_pending_two_files [of A B] by (intro drain_pending) simp
  have f: "filter (\<lambda>y. ykey y = k) ?out = [surface 1 ?b]"
    unfolding d using assms(1,2) by (rule pending_two_files)
  have "filter (\<lambda>r. rkey r = k) B \<noteq> []"
    using assms(2) by (auto simp: filter_empty_conv)
  then have "?b \<in> set (filter (\<lambda>r. rkey r = k) B)"
    by (rule last_in_set)
  then have mem: "?b \<in> set B" and kb: "rkey ?b = k"
    by simp_all
  have first: "filter (\<lambda>y. ykey y = k) ?out
           = (if is_blocked ?b then [Tombstone 1 k] else [Visible 1 ?b])"
    using f kb by (simp add: surface_def)
  have none: "Visible i r \<notin> set ?out" if blocked: "is_blocked ?b" and rk: "rkey r = k" for i r
  proof
    assume "Visible i r \<in> set ?out"
    then have "Visible i r \<in> set (filter (\<lambda>y. ykey y = k) ?out)"
      using rk by simp
    then show False
      using first blocked by simp
  qed
  show ?thesis
    using first mem none by blast
qed

theorem overlay_later_file_wins_witness:
  "filter (\<lambda>y. ykey y = (''NPC_'', ''guard01''))
     (drain 2 (newOverlay
        [[\<lparr>rkey = (''NPC_'', ''guard01''), rflags = 0, rbody = [1]\<rparr>],
         [\<lparr>rkey = (''NPC_'', ''guard01''), rflags = 0x2000, rbody = []\<rparr>]]))
     = [Tombstone 1 (''NPC_'', ''guard01'')]
   \<and> filter (\<lambda>y. ykey y = (''NPC_'', ''guard01''))
     (drain 2 (newOverlay
        [[\<lparr>rkey = (''NPC_'', ''guard01''), rflags = 0, rbody = [1]\<rparr>],
         [\<lparr>rkey = (''NPC_'', ''guard01''), rflags = 0x400, rbody = [2]\<rparr>]]))
     = [Visible 1 \<lparr>rkey = (''NPC_'', ''guard01''), rflags = 0x400, rbody = [2]\<rparr>]"
proof -
  let ?k = "(''NPC_'', ''guard01'')"
  let ?A = "[\<lparr>rkey = ?k, rflags = 0, rbody = [1]\<rparr>]"
  let ?B1 = "[\<lparr>rkey = ?k, rflags = 0x2000, rbody = []\<rparr>]"
  let ?B2 = "[\<lparr>rkey = ?k, rflags = 0x400, rbody = [2]\<rparr>]"
  have a: "?k \<in> rkey ` set ?A" and b1: "?k \<in> rkey ` set ?B1" and b2: "?k \<in> rkey ` set ?B2"
    by simp_all
  have n1: "length ?A + length ?B1 \<le> 2" and n2: "length ?A + length ?B2 \<le> 2"
    by simp_all
  show ?thesis
    using overlay_later_file_wins [OF a b1 n1] overlay_later_file_wins [OF a b2 n2]
    by (simp add: is_blocked_def FLAG_Blocked_def)
qed

end
